theory Spec2Isabelle
  imports Complex_Main "HOL-Library.Monad_Syntax" "HOL-Library.Log_Nat"
begin

section \<open>The Game of Life hero background (components/HeroBackground)\<close>

text \<open>
  The component keeps a grid of cells in a closure variable and redraws it about eight
  times per second. JavaScript numbers that hold array indices and sizes are modelled
  as integers. The opacity is an IEEE 754 double: it is modelled by the rational number
  that the double denotes, and each addition and subtraction on it rounds its exact
  result to the nearest double, as the code's arithmetic does.
\<close>

subsection \<open>Data model\<close>

text \<open>\<^verbatim>\<open>type Grid = { alive: boolean; opacity: number }[][]\<close>\<close>

record cell =
  alive :: bool
  opacity :: rat

type_synonym grid = "cell list list"

text \<open>
  The grid built by the component has \<open>rows\<close> rows of \<open>cols\<close> cells each, where
  \<open>rows\<close> and \<open>cols\<close> are the constants of the closure.
\<close>

definition wf_grid :: "nat \<Rightarrow> nat \<Rightarrow> grid \<Rightarrow> bool" where
  "wf_grid rows cols g \<longleftrightarrow> length g = rows \<and> list_all (\<lambda>row. length row = cols) g"

subsection \<open>Double-precision numbers\<close>

text \<open>
  A finite double is \<open>m * 2 ^ q\<close> with an integer \<open>m\<close> of at most 53 bits and
  \<open>q \<ge> -1074\<close>. \<open>binade x\<close> is the exponent \<open>e\<close> with \<open>2 ^ e \<le> |x| < 2 ^ (e + 1)\<close>, and
  \<open>ulp_exp x\<close> the exponent of the last place of the doubles of that size (fixed at
  \<open>-1074\<close> in the subnormal range). \<open>to_double x\<close> is the double nearest to \<open>x\<close>, a tie going
  to the even \<open>m\<close>: the value of the decimal literal \<open>x\<close>, and the result of an operation
  whose exact result is \<open>x\<close>. A result of magnitude \<open>2 ^ 1024\<close> or more would be an
  infinity; \<open>fade\<close> below adds 0.2 only to a double below 1 and subtracts 0.2 only from
  a double above 0, so none of its operations overflows.
\<close>

definition binade :: "rat \<Rightarrow> int" where
  "binade x =
     (if 1 \<le> \<bar>x\<bar> then bitlen \<lfloor>\<bar>x\<bar>\<rfloor> - 1 else - bitlen (\<lceil>1 / \<bar>x\<bar>\<rceil> - 1))"

definition ulp_exp :: "rat \<Rightarrow> int" where
  "ulp_exp x = max (binade x) (- 1022) - 52"

definition round_even :: "rat \<Rightarrow> int" where
  "round_even y =
     (let f = \<lfloor>y\<rfloor>; d = y - of_int f
      in if d < 1 / 2 then f else if 1 / 2 < d then f + 1 else if even f then f else f + 1)"

definition to_double :: "rat \<Rightarrow> rat" where
  "to_double x =
     (if x = 0 then 0
      else of_int (round_even (x / 2 powi ulp_exp x)) * 2 powi ulp_exp x)"

subsection \<open>JavaScript primitives\<close>

text \<open>
  The remainder operator \<open>%\<close> on integral numbers: the result takes the sign of the
  dividend, and a zero divisor gives NaN (here \<open>None\<close>).
\<close>

definition js_rem :: "int \<Rightarrow> int \<Rightarrow> int option" where
  "js_rem a b = (if b = 0 then None else Some (sgn a * (\<bar>a\<bar> mod \<bar>b\<bar>)))"

text \<open>
  \<open>grid[row][col]\<close> followed by a property read. An index that is NaN or out of range
  reads \<open>undefined\<close>, and reading a property of \<open>undefined\<close> raises a TypeError
  (here \<open>None\<close>).
\<close>

definition cell_at :: "grid \<Rightarrow> int option \<Rightarrow> int option \<Rightarrow> cell option" where
  "cell_at g row col =
     (case row of
        None \<Rightarrow> None
      | Some r \<Rightarrow>
          if 0 \<le> r \<and> r < int (length g) then
            (case col of
               None \<Rightarrow> None
             | Some c \<Rightarrow>
                 if 0 \<le> c \<and> c < int (length (g ! nat r)) then Some (g ! nat r ! nat c)
                 else None)
          else None)"

text \<open>A \<open>for\<close> loop over the values \<open>is\<close> of its counter, threading the loop state.\<close>

fun for_each :: "'i list \<Rightarrow> ('i \<Rightarrow> 's \<Rightarrow> 's option) \<Rightarrow> 's \<Rightarrow> 's option" where
  "for_each [] body s = Some s"
| "for_each (i # is) body s =
     (case body i s of None \<Rightarrow> None | Some s' \<Rightarrow> for_each is body s')"

text \<open>\<open>Array.prototype.map\<close> with a callback that may raise.\<close>

fun map_opt :: "('a \<Rightarrow> 'b option) \<Rightarrow> 'a list \<Rightarrow> 'b list option" where
  "map_opt f [] = Some []"
| "map_opt f (x # xs) =
     (case f x of
        None \<Rightarrow> None
      | Some y \<Rightarrow> (case map_opt f xs of None \<Rightarrow> None | Some ys \<Rightarrow> Some (y # ys)))"

subsection \<open>countNeighbors\<close>

text \<open>
  \<^verbatim>\<open>
  let sum = 0
  for (let i = -1; i < 2; i++)
    for (let j = -1; j < 2; j++) {
      const row = (x + i + rows) % rows
      const col = (y + j + cols) % cols
      sum += grid[row][col].alive ? 1 : 0
    }
  sum -= grid[x][y].alive ? 1 : 0
  return sum
  \<close>
\<close>

definition alive_num :: "cell \<Rightarrow> int" where
  "alive_num c = (if alive c then 1 else 0)"

definition countNeighbors :: "nat \<Rightarrow> nat \<Rightarrow> grid \<Rightarrow> int \<Rightarrow> int \<Rightarrow> int option" where
  "countNeighbors rows cols g x y =
     do {
       sum \<leftarrow> for_each [-1, 0, 1] (\<lambda>i.
                for_each [-1, 0, 1] (\<lambda>j sum.
                  do {
                    c \<leftarrow> cell_at g (js_rem (x + i + int rows) (int rows))
                                   (js_rem (y + j + int cols) (int cols));
                    Some (sum + alive_num c)
                  })) 0;
       c \<leftarrow> cell_at g (Some x) (Some y);
       Some (sum - alive_num c)
     }"

subsection \<open>The generation transition\<close>

text \<open>
  \<^verbatim>\<open>
  const next = grid.map((row, i) =>
    row.map((cell, j) => {
      const neighbors = countNeighbors(grid, i, j)
      const willBeAlive = cell.alive
        ? neighbors >= 2 && neighbors <= 3
        : neighbors === 3
      return { alive: willBeAlive, opacity: cell.opacity }
    }))
  \<close>
\<close>

definition next_cell :: "nat \<Rightarrow> nat \<Rightarrow> grid \<Rightarrow> nat \<Rightarrow> nat \<times> cell \<Rightarrow> cell option" where
  "next_cell rows cols g i jc =
     (case jc of (j, c) \<Rightarrow>
        do {
          neighbors \<leftarrow> countNeighbors rows cols g (int i) (int j);
          let willBeAlive = (if alive c then 2 \<le> neighbors \<and> neighbors \<le> 3
                             else neighbors = 3);
          Some \<lparr>alive = willBeAlive, opacity = opacity c\<rparr>
        })"

definition step :: "nat \<Rightarrow> nat \<Rightarrow> grid \<Rightarrow> grid option" where
  "step rows cols g =
     map_opt (\<lambda>(i, row). map_opt (next_cell rows cols g i) (enumerate 0 row)) (enumerate 0 g)"

subsection \<open>Opacity fade and drawing\<close>

definition cellSize :: nat where
  "cellSize = 6"

text \<open>
  \<^verbatim>\<open>const transitionSpeed = 0.2\<close>: the double nearest to \<open>1 / 5\<close>, which is
  \<open>3602879701896397 / 2 ^ 54\<close>. The literals \<open>0\<close>, \<open>0.5\<close> and \<open>1\<close> are doubles themselves.
\<close>

definition transitionSpeed :: rat where
  "transitionSpeed = to_double (1 / 5)"

text \<open>
  \<^verbatim>\<open>
  if (cell.alive && cell.opacity < 1) {
    cell.opacity = Math.min(cell.opacity + transitionSpeed, 0.5)
  } else if (!cell.alive && cell.opacity > 0) {
    cell.opacity = Math.max(cell.opacity - transitionSpeed, 0)
  }
  \<close>
\<close>

definition fade :: "cell \<Rightarrow> cell" where
  "fade c =
     (if alive c \<and> opacity c < 1
      then c\<lparr>opacity := min (to_double (opacity c + transitionSpeed)) (1 / 2)\<rparr>
      else if \<not> alive c \<and> opacity c > 0
      then c\<lparr>opacity := max (to_double (opacity c - transitionSpeed)) 0\<rparr>
      else c)"

text \<open>
  What the canvas receives for one visible cell: the fill style
  \<^verbatim>\<open>rgba(0, 0, 0, ${cell.opacity})\<close> and an arc of radius 1 around
  \<^verbatim>\<open>(j * cellSize + cellSize / 2, i * cellSize + cellSize / 2)\<close>.
\<close>

record circle =
  fill_alpha :: rat
  centre_x :: rat
  centre_y :: rat

definition circle_at :: "nat \<Rightarrow> nat \<Rightarrow> rat \<Rightarrow> circle" where
  "circle_at i j a =
     \<lparr>fill_alpha = a,
      centre_x = of_nat j * of_nat cellSize + of_nat cellSize / 2,
      centre_y = of_nat i * of_nat cellSize + of_nat cellSize / 2\<rparr>"

text \<open>
  The body of the two nested loops of \<open>draw\<close>: the cell object is updated in place and,
  when its opacity is positive afterwards, drawn. The loop state is the grid and the
  circles drawn so far in this frame. Every cell is an object of its own (built by an
  object literal in the initializer or in the \<open>map\<close> of the previous frame), so writing
  one cell changes no other position. Clearing the canvas at the start of \<open>draw\<close> is not
  part of the model: a frame is the list of circles drawn after it.
\<close>

definition draw_cell :: "nat \<Rightarrow> nat \<Rightarrow> grid \<times> circle list \<Rightarrow> (grid \<times> circle list) option" where
  "draw_cell i j s =
     (case s of (g, out) \<Rightarrow>
        (case cell_at g (Some (int i)) (Some (int j)) of
           None \<Rightarrow> None
         | Some c \<Rightarrow>
             let c' = fade c
             in Some (g[i := (g ! i)[j := c']],
                      if opacity c' > 0 then out @ [circle_at i j (opacity c')] else out)))"

text \<open>The circles that the loop body draws for the cell \<open>(i, j)\<close> of \<open>g\<close>: one or none.\<close>

definition drawn_for :: "grid \<Rightarrow> nat \<Rightarrow> nat \<Rightarrow> circle list" where
  "drawn_for g i j =
     (if opacity (fade (g ! i ! j)) > 0 then [circle_at i j (opacity (fade (g ! i ! j)))] else [])"

definition draw_cells :: "nat \<Rightarrow> nat \<Rightarrow> grid \<Rightarrow> (grid \<times> circle list) option" where
  "draw_cells rows cols g =
     for_each [0..<rows] (\<lambda>i. for_each [0..<cols] (draw_cell i)) (g, [])"

text \<open>
  One call of \<open>draw\<close> without its scheduling: fade and draw every cell, then replace the
  grid by the next generation. The result is the new grid and the circles of this frame.
\<close>

definition draw :: "nat \<Rightarrow> nat \<Rightarrow> grid \<Rightarrow> (grid \<times> circle list) option" where
  "draw rows cols g =
     do {
       (g1, out) \<leftarrow> draw_cells rows cols g;
       next \<leftarrow> step rows cols g1;
       Some (next, out)
     }"

subsection \<open>Construction\<close>

text \<open>
  \<^verbatim>\<open>
  const cols = Math.floor(canvas.width / cellSize)
  const rows = Math.floor(canvas.height / cellSize)
  let grid: Grid = Array(rows).fill(null).map(() =>
    Array(cols).fill(null).map(() => ({
      alive: Math.random() > 0.85,
      opacity: Math.random() > 0.85 ? 0.5 : 0,
    })))
  \<close>
  \<open>random k\<close> is the result of the \<open>k\<close>-th call of \<open>Math.random\<close>, counted from 0. The
  cells are built row by row, and each cell makes two calls: the first for \<open>alive\<close>, the
  second for \<open>opacity\<close>.
\<close>

text \<open>A run of \<open>Math.random\<close> given by its first results; later calls return 0.\<close>

definition draws :: "rat list \<Rightarrow> nat \<Rightarrow> rat" where
  "draws xs k = (if k < length xs then xs ! k else 0)"

definition init_cell :: "(nat \<Rightarrow> rat) \<Rightarrow> nat \<Rightarrow> cell" where
  "init_cell random k =
     \<lparr>alive = (random k > 85 / 100),
      opacity = (if random (k + 1) > 85 / 100 then 1 / 2 else 0)\<rparr>"

definition initialize :: "nat \<Rightarrow> nat \<Rightarrow> (nat \<Rightarrow> rat) \<Rightarrow> grid" where
  "initialize rows cols random =
     map (\<lambda>i. map (\<lambda>j. init_cell random (2 * (i * cols + j))) [0..<cols]) [0..<rows]"

subsection \<open>Scheduling\<close>

text \<open>
  \<^verbatim>\<open>
  let animationFrameId: number
  const draw = () => {
    ...
    grid = next
    setTimeout(() => { animationFrameId = requestAnimationFrame(draw) }, 125)
  }
  draw()
  return () => { cancelAnimationFrame(animationFrameId) }
  \<close>
  The state of the mounted component: its two closure variables, the callbacks that the
  browser holds for it (every pending timeout carries the same closure, every pending
  animation frame carries \<open>draw\<close> under its handle), the next handle that
  \<open>requestAnimationFrame\<close> will return, and the frames drawn so far.
\<close>

record sched =
  grid_var :: grid
  animationFrameId :: "nat option"
  timeouts :: nat
  frames :: "nat list"
  next_handle :: nat
  drawn :: "circle list list"

text \<open>
  The events of the browser's event loop that reach the component: a pending timeout
  fires, the pending animation frame with a given handle fires, React runs the cleanup
  of the effect. An event that is not pending leaves the state as it is. A callback that
  raises gives \<open>None\<close>.
\<close>

datatype event = TimeoutFires | FrameFires nat | Cleanup

definition run_draw :: "nat \<Rightarrow> nat \<Rightarrow> sched \<Rightarrow> sched option" where
  "run_draw rows cols s =
     (case draw rows cols (grid_var s) of
        None \<Rightarrow> None
      | Some (next, out) \<Rightarrow>
          Some (s\<lparr>grid_var := next, drawn := drawn s @ [out], timeouts := timeouts s + 1\<rparr>))"

text \<open>
  \<open>cancelAnimationFrame\<close> removes the pending callback with the given handle and does
  nothing for a handle that is not pending, as for \<open>undefined\<close>.
\<close>

definition fire :: "nat \<Rightarrow> nat \<Rightarrow> event \<Rightarrow> sched \<Rightarrow> sched option" where
  "fire rows cols e s =
     (case e of
        TimeoutFires \<Rightarrow>
          if timeouts s = 0 then Some s
          else Some (s\<lparr>timeouts := timeouts s - 1,
                       frames := frames s @ [next_handle s],
                       animationFrameId := Some (next_handle s),
                       next_handle := next_handle s + 1\<rparr>)
      | FrameFires h \<Rightarrow>
          if h \<in> set (frames s) then run_draw rows cols (s\<lparr>frames := removeAll h (frames s)\<rparr>)
          else Some s
      | Cleanup \<Rightarrow>
          Some (case animationFrameId s of
                  None \<Rightarrow> s
                | Some h \<Rightarrow> s\<lparr>frames := removeAll h (frames s)\<rparr>))"

fun run :: "nat \<Rightarrow> nat \<Rightarrow> event list \<Rightarrow> sched \<Rightarrow> sched option" where
  "run rows cols [] s = Some s"
| "run rows cols (e # es) s =
     (case fire rows cols e s of None \<Rightarrow> None | Some s' \<Rightarrow> run rows cols es s')"

text \<open>
  Mounting: the grid is built from the width and height of the canvas element, and
  \<open>draw\<close> is called once, synchronously.
\<close>

definition mount :: "nat \<Rightarrow> nat \<Rightarrow> (nat \<Rightarrow> rat) \<Rightarrow> sched option" where
  "mount width height random =
     (let cols = width div cellSize;
          rows = height div cellSize
      in run_draw rows cols
           \<lparr>grid_var = initialize rows cols random, animationFrameId = None, timeouts = 0,
            frames = [], next_handle = 1, drawn = []\<rparr>)"

subsection \<open>The neighbourhood on the torus, as specified\<close>

text \<open>
  The eight neighbour positions of \<open>(x, y)\<close>: the offsets \<open>{-1,0,1} \<times> {-1,0,1}\<close> without
  \<open>(0,0)\<close>, each index wrapped as \<open>(index + delta + dimension) mod dimension\<close>. A position
  that several offsets reach is listed once for each of them.
\<close>

definition wrap :: "int \<Rightarrow> int \<Rightarrow> nat \<Rightarrow> nat" where
  "wrap index delta dimension = nat ((index + delta + int dimension) mod int dimension)"

definition neighbour_offsets :: "(int \<times> int) list" where
  "neighbour_offsets = [(-1, -1), (-1, 0), (-1, 1), (0, -1), (0, 1), (1, -1), (1, 0), (1, 1)]"

definition neighbour_positions :: "nat \<Rightarrow> nat \<Rightarrow> int \<Rightarrow> int \<Rightarrow> (nat \<times> nat) list" where
  "neighbour_positions rows cols x y =
     map (\<lambda>(i, j). (wrap x i rows, wrap y j cols)) neighbour_offsets"

definition live_neighbours :: "nat \<Rightarrow> nat \<Rightarrow> grid \<Rightarrow> int \<Rightarrow> int \<Rightarrow> int" where
  "live_neighbours rows cols g x y =
     int (length (filter (\<lambda>(r, c). alive (g ! r ! c)) (neighbour_positions rows cols x y)))"

subsection \<open>Patterns and orders used in the statements\<close>

definition dead :: cell where
  "dead = \<lparr>alive = False, opacity = 0\<rparr>"

definition live :: cell where
  "live = \<lparr>alive = True, opacity = 1 / 2\<rparr>"

definition small_grid :: grid where
  "small_grid = [[live, dead, live], [dead, dead, live]]"

text \<open>
  The alive flags of a grid whose only live cells are the three cells of the horizontal
  line around \<open>(r, c)\<close>, and of the vertical line around \<open>(r, c)\<close>.
\<close>

definition in_line :: "nat \<Rightarrow> nat \<Rightarrow> bool" where
  "in_line c j \<longleftrightarrow> j + 1 = c \<or> j = c \<or> j = c + 1"

definition hline :: "nat \<Rightarrow> nat \<Rightarrow> nat \<Rightarrow> nat \<Rightarrow> bool list list" where
  "hline rows cols r c = map (\<lambda>i. map (\<lambda>j. i = r \<and> in_line c j) [0..<cols]) [0..<rows]"

definition vline :: "nat \<Rightarrow> nat \<Rightarrow> nat \<Rightarrow> nat \<Rightarrow> bool list list" where
  "vline rows cols r c = map (\<lambda>i. map (\<lambda>j. in_line r i \<and> j = c) [0..<cols]) [0..<rows]"

text \<open>
  In one dimension of size \<open>n\<close>: how many of the three wrapped positions around \<open>i\<close>
  satisfy \<open>P\<close>.
\<close>

definition near :: "(nat \<Rightarrow> bool) \<Rightarrow> nat \<Rightarrow> nat \<Rightarrow> int" where
  "near P n i = (\<Sum>d\<leftarrow>[-1, 0, 1]. if P (wrap (int i) d n) then 1 else 0)"

text \<open>The rule of the game: the new alive flag from the old one and the neighbour count.\<close>

definition life_rule :: "bool \<Rightarrow> int \<Rightarrow> bool" where
  "life_rule a n \<longleftrightarrow> (a \<and> (n = 2 \<or> n = 3)) \<or> (\<not> a \<and> n = 3)"

definition blinker5 :: grid where
  "blinker5 =
     [[dead, dead, dead, dead, dead],
      [dead, dead, dead, dead, dead],
      [dead, live, live, live, dead],
      [dead, dead, dead, dead, dead],
      [dead, dead, dead, dead, dead]]"

text \<open>Row-major order on grid positions, and the visible cells of a grid in that order.\<close>

definition row_major :: "nat \<times> nat \<Rightarrow> nat \<times> nat \<Rightarrow> bool" where
  "row_major p q \<longleftrightarrow> fst p < fst q \<or> (fst p = fst q \<and> snd p < snd q)"

definition visible_cells :: "nat \<Rightarrow> nat \<Rightarrow> grid \<Rightarrow> (nat \<times> nat) list" where
  "visible_cells rows cols g =
     filter (\<lambda>(i, j). opacity (g ! i ! j) > 0) (List.product [0..<rows] [0..<cols])"

section \<open>Properties of the model\<close>

subsection \<open>Rounding to a double\<close>

text \<open>
  \<open>binade\<close> is the binary exponent, \<open>round_even\<close> is within one half of its argument and
  even at a tie, \<open>to_double x\<close> is within half a unit in the last place of \<open>x\<close>, and it is
  \<open>m * 2 ^ q\<close> with \<open>|m| \<le> 2 ^ 53\<close> and \<open>q \<ge> -1074\<close>.
\<close>

lemma binade_ge1:
  assumes "1 \<le> \<bar>x\<bar>"
  shows "2 powi binade x \<le> \<bar>x\<bar>" and "\<bar>x\<bar> < 2 powi (binade x + 1)"
proof -
  let ?n = "\<lfloor>\<bar>x\<bar>\<rfloor>"
  have n: "0 < ?n" using assms by simp
  from bitlen_bounds [OF n] have lo: "2 ^ nat (bitlen ?n - 1) \<le> ?n" and hi: "?n < 2 ^ nat (bitlen ?n)"
    by simp_all
  have b1: "1 \<le> bitlen ?n" using n by (simp add: bitlen_alt_def)
  have bx: "binade x = bitlen ?n - 1" using assms by (simp add: binade_def)
  have "(2::rat) powi binade x = 2 ^ nat (bitlen ?n - 1)"
    unfolding bx using b1 by (simp add: power_int_nonneg_exp)
  also have "\<dots> = of_int (2 ^ nat (bitlen ?n - 1))" by simp
  also have "\<dots> \<le> of_int ?n" using lo by (simp only: of_int_le_iff)
  also have "\<dots> \<le> \<bar>x\<bar>" by (rule of_int_floor_le)
  finally show "2 powi binade x \<le> \<bar>x\<bar>" .
  have "\<bar>x\<bar> < of_int (?n + 1)" by linarith
  also have "\<dots> \<le> of_int (2 ^ nat (bitlen ?n))" using hi by (simp only: of_int_le_iff)
  also have "\<dots> = (2::rat) powi (binade x + 1)"
    unfolding bx using b1 by (simp add: power_int_nonneg_exp)
  finally show "\<bar>x\<bar> < 2 powi (binade x + 1)" .
qed

lemma binade_lt1:
  assumes "x \<noteq> 0" "\<bar>x\<bar> < 1"
  shows "2 powi binade x \<le> \<bar>x\<bar>" and "\<bar>x\<bar> < 2 powi (binade x + 1)"
proof -
  let ?y = "1 / \<bar>x\<bar>"
  let ?m = "\<lceil>?y\<rceil> - 1"
  have ax: "0 < \<bar>x\<bar>" using assms by simp
  have y1: "1 < ?y" using assms ax by (simp add: field_simps)
  then have m: "0 < ?m" by (simp add: less_ceiling_iff)
  from bitlen_bounds [OF m] have lo: "2 ^ nat (bitlen ?m - 1) \<le> ?m" and hi: "?m < 2 ^ nat (bitlen ?m)"
    by simp_all
  have b1: "1 \<le> bitlen ?m" using m by (simp add: bitlen_alt_def)
  have bx: "binade x = - bitlen ?m" using assms by (simp add: binade_def)
  have "?y \<le> of_int (?m + 1)" by simp
  also have "\<dots> \<le> of_int (2 ^ nat (bitlen ?m))" using hi by (simp only: of_int_le_iff)
  also have "\<dots> = 2 ^ nat (bitlen ?m)" by simp
  finally have "1 / 2 ^ nat (bitlen ?m) \<le> \<bar>x\<bar>"
    using ax by (simp add: field_simps)
  moreover have "(2::rat) powi binade x = 1 / 2 ^ nat (bitlen ?m)"
    unfolding bx using b1 by (simp add: power_int_def field_simps)
  ultimately show "2 powi binade x \<le> \<bar>x\<bar>" by simp
  have "(2::rat) ^ nat (bitlen ?m - 1) = of_int (2 ^ nat (bitlen ?m - 1))" by simp
  also have "\<dots> \<le> of_int ?m" using lo by (simp only: of_int_le_iff)
  also have "\<dots> < ?y" by linarith
  finally have "\<bar>x\<bar> < 1 / 2 ^ nat (bitlen ?m - 1)"
    using ax by (simp add: field_simps)
  moreover have "(2::rat) powi (binade x + 1) = 1 / 2 ^ nat (bitlen ?m - 1)"
  proof -
    have "binade x + 1 = - (bitlen ?m - 1)" unfolding bx by simp
    moreover have "0 \<le> bitlen ?m - 1" using b1 by simp
    ultimately show ?thesis
      by (simp only: power_int_minus_divide power_int_nonneg_exp)
  qed
  ultimately show "\<bar>x\<bar> < 2 powi (binade x + 1)" by simp
qed

lemma binade_bounds:
  assumes "x \<noteq> 0"
  shows "2 powi binade x \<le> \<bar>x\<bar> \<and> \<bar>x\<bar> < 2 powi (binade x + 1)"
  using assms binade_ge1 [of x] binade_lt1 [of x] by (cases "1 \<le> \<bar>x\<bar>") auto

lemma round_even_near: "\<bar>of_int (round_even y) - y\<bar> \<le> 1 / 2"
proof -
  have "of_int \<lfloor>y\<rfloor> \<le> y" "y < of_int \<lfloor>y\<rfloor> + 1" by linarith+
  then show ?thesis
    by (auto simp: round_even_def Let_def abs_le_iff)
qed

lemma round_even_tie:
  "y - of_int \<lfloor>y\<rfloor> = 1 / 2 \<Longrightarrow> even (round_even y)"
  by (auto simp: round_even_def Let_def)

lemma to_double_near: "\<bar>to_double x - x\<bar> \<le> 2 powi ulp_exp x / 2"
proof (cases "x = 0")
  case True
  then show ?thesis by (simp add: to_double_def)
next
  case False
  let ?u = "(2::rat) powi ulp_exp x"
  have u: "0 < ?u" by simp
  have "to_double x - x = (of_int (round_even (x / ?u)) - x / ?u) * ?u"
    using False u by (simp add: to_double_def left_diff_distrib)
  then have "\<bar>to_double x - x\<bar> = \<bar>of_int (round_even (x / ?u)) - x / ?u\<bar> * ?u"
    using u by (simp only: abs_mult abs_of_pos)
  also have "\<dots> \<le> 1 / 2 * ?u"
    using round_even_near [of "x / ?u"] u by (intro mult_right_mono) simp_all
  finally show ?thesis by simp
qed

lemma round_even_range: "\<lfloor>y\<rfloor> \<le> round_even y \<and> round_even y \<le> \<lfloor>y\<rfloor> + 1"
  by (simp add: round_even_def Let_def)

lemma to_double_mantissa:
  assumes "x \<noteq> 0"
  shows "\<bar>round_even (x / 2 powi ulp_exp x)\<bar> \<le> 2 ^ 53" and "- 1074 \<le> ulp_exp x"
proof -
  let ?u = "(2::rat) powi ulp_exp x"
  let ?y = "x / ?u"
  have u: "0 < ?u" by simp
  show "- 1074 \<le> ulp_exp x" by (simp add: ulp_exp_def)
  have le: "binade x + 1 \<le> ulp_exp x + 53" by (simp add: ulp_exp_def)
  have "\<bar>x\<bar> < 2 powi (binade x + 1)" using binade_bounds [OF assms] ..
  also have "\<dots> \<le> 2 powi (ulp_exp x + 53)"
    using le by (intro power_int_increasing) simp_all
  also have "\<dots> = ?u * 2 ^ 53" by (simp add: power_int_add)
  finally have "\<bar>x\<bar> / ?u < 2 ^ 53" using u by (simp add: field_simps del: zero_less_power_int)
  moreover define y where "y = x / ?u"
  moreover have "\<bar>y\<bar> = \<bar>x\<bar> / ?u" unfolding y_def using u by (simp only: abs_divide abs_of_pos)
  ultimately have "\<bar>y\<bar> < 2 ^ 53" by (simp only:)
  then have "y < of_int (2 ^ 53)" "of_int (- (2 ^ 53)) \<le> y" by simp_all
  then have "\<lfloor>y\<rfloor> < 2 ^ 53" "- (2 ^ 53) \<le> \<lfloor>y\<rfloor>"
    by (simp_all only: floor_less_iff le_floor_iff)
  with round_even_range [of y] have "\<bar>round_even y\<bar> \<le> 2 ^ 53" by linarith
  then show "\<bar>round_even ?y\<bar> \<le> 2 ^ 53" unfolding y_def .
qed

lemma to_double_values:
  "to_double (1 / 5) = 3602879701896397 / 18014398509481984"
  "to_double (2 / 5) = 3602879701896397 / 9007199254740992"
  "to_double (3 / 10) = 5404319552844595 / 18014398509481984"
  by code_simp+

subsection \<open>Basic facts\<close>

lemma js_rem_nonneg: "0 \<le> a \<Longrightarrow> 0 < b \<Longrightarrow> js_rem a b = Some (a mod b)"
  by (simp add: js_rem_def sgn_if)

lemma wf_grid_row: "wf_grid rows cols g \<Longrightarrow> i < rows \<Longrightarrow> length (g ! i) = cols"
  by (simp add: wf_grid_def list_all_length)

lemma cell_at_wf:
  "wf_grid rows cols g \<Longrightarrow> 0 \<le> r \<Longrightarrow> r < int rows \<Longrightarrow> 0 \<le> c \<Longrightarrow> c < int cols \<Longrightarrow>
   cell_at g (Some r) (Some c) = Some (g ! nat r ! nat c)"
  by (simp add: cell_at_def wf_grid_def list_all_length)

lemma map_opt_all_Some:
  "(\<And>x. x \<in> set xs \<Longrightarrow> f x = Some (h x)) \<Longrightarrow> map_opt f xs = Some (map h xs)"
  by (induction xs) simp_all

lemma map_opt_SomeD:
  "map_opt f xs = Some ys \<Longrightarrow>
   length ys = length xs \<and> (\<forall>i<length xs. f (xs ! i) = Some (ys ! i))"
proof (induction xs arbitrary: ys)
  case Nil
  then show ?case by simp
next
  case (Cons x xs)
  then obtain y ys' where y: "f x = Some y" and ys': "map_opt f xs = Some ys'"
    and eq: "ys = y # ys'"
    by (auto split: option.splits)
  from Cons.IH [OF ys'] have len: "length ys' = length xs"
    and nth: "\<forall>i<length xs. f (xs ! i) = Some (ys' ! i)" by simp_all
  show ?case
  proof (intro conjI allI impI)
    show "length ys = length (x # xs)" using len eq by simp
  next
    fix i assume "i < length (x # xs)"
    then show "f ((x # xs) ! i) = Some (ys ! i)"
      using y nth eq by (cases i) simp_all
  qed
qed

subsection \<open>Neighbour counts on a well-formed grid\<close>

lemma cell_at_wrapped:
  assumes "wf_grid rows cols g" "0 \<le> x" "x < int rows" "0 \<le> y" "y < int cols"
    and "-1 \<le> i" "-1 \<le> j"
  shows "cell_at g (js_rem (x + i + int rows) (int rows)) (js_rem (y + j + int cols) (int cols))
         = Some (g ! wrap x i rows ! wrap y j cols)"
proof -
  have r: "js_rem (x + i + int rows) (int rows) = Some ((x + i + int rows) mod int rows)"
    using assms by (intro js_rem_nonneg) auto
  have c: "js_rem (y + j + int cols) (int cols) = Some ((y + j + int cols) mod int cols)"
    using assms by (intro js_rem_nonneg) auto
  have pos: "0 < int rows" "0 < int cols" using assms by auto
  have "0 \<le> (x + i + int rows) mod int rows" "(x + i + int rows) mod int rows < int rows"
    "0 \<le> (y + j + int cols) mod int cols" "(y + j + int cols) mod int cols < int cols"
    using pos by (simp_all only: pos_mod_sign pos_mod_bound)
  with assms(1) show ?thesis
    unfolding r c wrap_def by (rule cell_at_wf)
qed

lemma for_each_sum:
  "(\<And>i s. i \<in> set is \<Longrightarrow> body i s = Some (s + f i)) \<Longrightarrow>
   for_each is body (s::int) = Some (s + sum_list (map f is))"
  by (induction "is" arbitrary: s) (simp_all add: add.assoc)

lemma wrap_zero: "0 \<le> x \<Longrightarrow> x < int n \<Longrightarrow> wrap x 0 n = nat x"
  by (simp add: wrap_def)

text \<open>The loops add up the nine cells of the wrapped 3 by 3 block; the centre is taken off.\<close>

lemma countNeighbors_sum9:
  assumes "wf_grid rows cols g" "0 \<le> x" "x < int rows" "0 \<le> y" "y < int cols"
  shows "countNeighbors rows cols g x y =
         Some ((\<Sum>i\<leftarrow>[-1, 0, 1]. \<Sum>j\<leftarrow>[-1, 0, 1]. alive_num (g ! wrap x i rows ! wrap y j cols))
               - alive_num (g ! nat x ! nat y))"
proof -
  have inner: "for_each [-1, 0, 1] (\<lambda>j sum.
                  do {
                    c \<leftarrow> cell_at g (js_rem (x + i + int rows) (int rows))
                                   (js_rem (y + j + int cols) (int cols));
                    Some (sum + alive_num c)
                  }) s
        = Some (s + (\<Sum>j\<leftarrow>[-1, 0, 1]. alive_num (g ! wrap x i rows ! wrap y j cols)))"
    if "i \<in> set [-1, 0, 1]" for i s
  proof (rule for_each_sum)
    fix j :: int and s :: int
    assume "j \<in> set [-1, 0, 1]"
    then have "-1 \<le> j" by auto
    moreover have "-1 \<le> i" using that by auto
    ultimately show "cell_at g (js_rem (x + i + int rows) (int rows))
            (js_rem (y + j + int cols) (int cols)) \<bind> (\<lambda>c. Some (s + alive_num c))
          = Some (s + alive_num (g ! wrap x i rows ! wrap y j cols))"
      using assms by (simp only: cell_at_wrapped bind.bind_lunit)
  qed
  have outer: "for_each [-1, 0, 1] (\<lambda>i.
                for_each [-1, 0, 1] (\<lambda>j sum.
                  do {
                    c \<leftarrow> cell_at g (js_rem (x + i + int rows) (int rows))
                                   (js_rem (y + j + int cols) (int cols));
                    Some (sum + alive_num c)
                  })) 0
        = Some (0 + (\<Sum>i\<leftarrow>[-1, 0, 1]. \<Sum>j\<leftarrow>[-1, 0, 1]. alive_num (g ! wrap x i rows ! wrap y j cols)))"
    by (rule for_each_sum) (rule inner)
  have centre: "cell_at g (Some x) (Some y) = Some (g ! nat x ! nat y)"
    using assms by (rule cell_at_wf)
  show ?thesis
    unfolding countNeighbors_def outer centre by simp
qed

lemma countNeighbors_wf:
  assumes "wf_grid rows cols g" "0 \<le> x" "x < int rows" "0 \<le> y" "y < int cols"
  shows "countNeighbors rows cols g x y = Some (live_neighbours rows cols g x y)"
proof -
  have "wrap x 0 rows = nat x" "wrap y 0 cols = nat y"
    using assms by (simp_all add: wrap_zero)
  then show ?thesis
    unfolding countNeighbors_sum9 [OF assms] live_neighbours_def neighbour_positions_def
      neighbour_offsets_def
    by (simp add: alive_num_def)
qed

lemma origin_wraps:
  assumes "0 < rows" "0 < cols"
  shows "(0, 0) \<in> set (neighbour_positions rows cols (int (rows - 1)) (int (cols - 1)))"
    and "(0, 0) \<in> set (neighbour_positions rows cols (int (rows - 1)) 0)"
    and "(0, 0) \<in> set (neighbour_positions rows cols 0 (int (cols - 1)))"
proof -
  have "wrap (int (rows - 1)) 1 rows = 0" "wrap (int (cols - 1)) 1 cols = 0"
    "wrap 0 0 rows = 0" "wrap 0 0 cols = 0"
    using assms by (simp_all add: wrap_def of_nat_diff)
  then show "(0, 0) \<in> set (neighbour_positions rows cols (int (rows - 1)) (int (cols - 1)))"
    and "(0, 0) \<in> set (neighbour_positions rows cols (int (rows - 1)) 0)"
    and "(0, 0) \<in> set (neighbour_positions rows cols 0 (int (cols - 1)))"
    by (simp_all add: neighbour_positions_def neighbour_offsets_def)
qed

lemma live_neighbours_pos:
  assumes "(r, c) \<in> set (neighbour_positions rows cols x y)" "alive (g ! r ! c)"
  shows "1 \<le> live_neighbours rows cols g x y"
proof -
  from assms have "(r, c) \<in> set (filter (\<lambda>(r, c). alive (g ! r ! c))
                                  (neighbour_positions rows cols x y))"
    by simp
  then have "filter (\<lambda>(r, c). alive (g ! r ! c)) (neighbour_positions rows cols x y) \<noteq> []"
    by (metis empty_iff empty_set)
  then have "0 < length (filter (\<lambda>(r, c). alive (g ! r ! c))
                          (neighbour_positions rows cols x y))"
    by simp
  then show ?thesis unfolding live_neighbours_def by linarith
qed

lemma wf_small_grid: "wf_grid 2 3 small_grid"
  by (simp add: wf_grid_def small_grid_def)

subsection \<open>The generation transition on a well-formed grid\<close>

lemma next_cell_wf:
  assumes "wf_grid rows cols g" "i < rows" "j < cols"
  shows "\<exists>n. countNeighbors rows cols g (int i) (int j) = Some n \<and>
             next_cell rows cols g i (j, c) =
               Some \<lparr>alive = (if alive c then 2 \<le> n \<and> n \<le> 3 else n = 3), opacity = opacity c\<rparr>"
proof -
  from assms obtain n where "countNeighbors rows cols g (int i) (int j) = Some n"
    using countNeighbors_sum9 [of rows cols g "int i" "int j"] by simp
  then show ?thesis by (simp add: next_cell_def)
qed

lemma next_cell_opacity:
  assumes "next_cell rows cols g i (j, c) = Some c'"
  shows "opacity c' = opacity c"
proof (cases "countNeighbors rows cols g (int i) (int j)")
  case None
  with assms show ?thesis by (simp add: next_cell_def)
next
  case (Some n)
  with assms have "c' = \<lparr>alive = (if alive c then 2 \<le> n \<and> n \<le> 3 else n = 3),
                         opacity = opacity c\<rparr>"
    by (simp add: next_cell_def)
  then show ?thesis by simp
qed

lemma step_rows:
  assumes "step rows cols g = Some g'"
  shows "length g' = length g"
    and "i < length g \<Longrightarrow> length (g' ! i) = length (g ! i)"
    and "i < length g \<Longrightarrow> j < length (g ! i) \<Longrightarrow>
           next_cell rows cols g i (j, g ! i ! j) = Some (g' ! i ! j)"
proof -
  from assms have outer: "length g' = length (enumerate 0 g) \<and>
      (\<forall>k<length (enumerate 0 g).
         (\<lambda>(i, row). map_opt (next_cell rows cols g i) (enumerate 0 row)) (enumerate 0 g ! k)
           = Some (g' ! k))"
    unfolding step_def by (rule map_opt_SomeD)
  then show "length g' = length g" by simp
  {
    assume i: "i < length g"
    with outer have "map_opt (next_cell rows cols g i) (enumerate 0 (g ! i)) = Some (g' ! i)"
      by (simp add: nth_enumerate_eq)
    then have inner: "length (g' ! i) = length (enumerate 0 (g ! i)) \<and>
        (\<forall>k<length (enumerate 0 (g ! i)).
           next_cell rows cols g i (enumerate 0 (g ! i) ! k) = Some (g' ! i ! k))"
      by (rule map_opt_SomeD)
    then show "length (g' ! i) = length (g ! i)" by simp
    assume "j < length (g ! i)"
    with inner show "next_cell rows cols g i (j, g ! i ! j) = Some (g' ! i ! j)"
      by (simp add: nth_enumerate_eq)
  }
qed

lemma step_total:
  assumes "wf_grid rows cols g"
  shows "\<exists>g'. step rows cols g = Some g'"
proof -
  let ?h = "\<lambda>(i, row). map (\<lambda>jc. the (next_cell rows cols g i jc)) (enumerate 0 row)"
  have "map_opt (\<lambda>(i, row). map_opt (next_cell rows cols g i) (enumerate 0 row)) (enumerate 0 g)
        = Some (map ?h (enumerate 0 g))"
  proof (rule map_opt_all_Some)
    fix p assume p: "p \<in> set (enumerate 0 g)"
    obtain i row where [simp]: "p = (i, row)" by (cases p)
    from p have i: "i < rows" and row: "row = g ! i"
      using assms by (auto simp: in_set_enumerate_eq wf_grid_def)
    have "map_opt (next_cell rows cols g i) (enumerate 0 row)
          = Some (map (\<lambda>jc. the (next_cell rows cols g i jc)) (enumerate 0 row))"
    proof (rule map_opt_all_Some)
      fix q assume q: "q \<in> set (enumerate 0 row)"
      obtain j c where [simp]: "q = (j, c)" by (cases q)
      from q have "j < cols"
        using assms i row by (auto simp: in_set_enumerate_eq wf_grid_row)
      with next_cell_wf [OF assms i, of j c]
      show "next_cell rows cols g i q = Some (the (next_cell rows cols g i q))"
        by auto
    qed
    then show "(\<lambda>(i, row). map_opt (next_cell rows cols g i) (enumerate 0 row)) p = Some (?h p)"
      by simp
  qed
  then show ?thesis unfolding step_def by blast
qed

lemma step_wf:
  assumes "wf_grid rows cols g" "step rows cols g = Some g'"
  shows "wf_grid rows cols g'"
  using assms step_rows(1,2) [OF assms(2)]
  by (simp add: wf_grid_def list_all_length)

subsection \<open>The drawing loops on a well-formed grid\<close>

lemma draw_cell_wf:
  assumes "wf_grid rows cols g" "i < rows" "j < cols"
  shows "draw_cell i j (g, out) =
         Some (g[i := (g ! i)[j := fade (g ! i ! j)]], out @ drawn_for g i j)"
proof -
  have "cell_at g (Some (int i)) (Some (int j)) = Some (g ! nat (int i) ! nat (int j))"
    using assms by (intro cell_at_wf) simp_all
  then show ?thesis
    by (simp add: draw_cell_def drawn_for_def Let_def)
qed

lemma wf_grid_update:
  assumes "wf_grid rows cols g"
  shows "wf_grid rows cols (g[i := (g ! i)[j := c]])"
proof (cases "i < length g")
  case True
  with assms show ?thesis
    by (auto simp: wf_grid_def list_all_length nth_list_update)
next
  case False
  then have "g[i := (g ! i)[j := c]] = g" by (intro list_update_beyond) simp
  with assms show ?thesis by simp
qed

lemma nth_grid_update:
  assumes "wf_grid rows cols g" "a < rows" "b < cols"
  shows "g[i := (g ! i)[j := c]] ! a ! b = (if a = i \<and> b = j then c else g ! a ! b)"
proof (cases "i < length g")
  case True
  with assms show ?thesis
    by (auto simp: wf_grid_def list_all_length nth_list_update)
next
  case False
  with assms show ?thesis by (auto simp: wf_grid_def)
qed

lemma draw_row:
  assumes "wf_grid rows cols g" "i < rows" "set js \<subseteq> {..<cols}" "distinct js"
  shows "\<exists>g'. for_each js (draw_cell i) (g, out)
                = Some (g', out @ concat (map (drawn_for g i) js)) \<and>
              wf_grid rows cols g' \<and>
              (\<forall>a<rows. \<forall>b<cols.
                 g' ! a ! b = (if a = i \<and> b \<in> set js then fade (g ! a ! b) else g ! a ! b))"
  using assms
proof (induction js arbitrary: g out)
  case Nil
  then show ?case by simp
next
  case (Cons j js)
  let ?g1 = "g[i := (g ! i)[j := fade (g ! i ! j)]]"
  from Cons.prems have j: "j < cols" and notin: "j \<notin> set js"
    and js: "set js \<subseteq> {..<cols}" "distinct js" by auto
  have wf1: "wf_grid rows cols ?g1" using Cons.prems(1) by (rule wf_grid_update)
  have nth1: "?g1 ! a ! b = (if a = i \<and> b = j then fade (g ! i ! j) else g ! a ! b)"
    if "a < rows" "b < cols" for a b
    using Cons.prems(1) that by (rule nth_grid_update)
  have first: "draw_cell i j (g, out) = Some (?g1, out @ drawn_for g i j)"
    using Cons.prems(1,2) j by (rule draw_cell_wf)
  from Cons.IH [OF wf1 Cons.prems(2) js, of "out @ drawn_for g i j"]
  obtain g' where rest: "for_each js (draw_cell i) (?g1, out @ drawn_for g i j)
        = Some (g', (out @ drawn_for g i j) @ concat (map (drawn_for ?g1 i) js))"
    and wf': "wf_grid rows cols g'"
    and nth': "\<forall>a<rows. \<forall>b<cols.
        g' ! a ! b = (if a = i \<and> b \<in> set js then fade (?g1 ! a ! b) else ?g1 ! a ! b)"
    by blast
  have same: "map (drawn_for ?g1 i) js = map (drawn_for g i) js"
  proof (rule map_cong [OF refl])
    fix b assume b: "b \<in> set js"
    with js notin have "b < cols" "b \<noteq> j" by auto
    with nth1 [OF Cons.prems(2), of b] show "drawn_for ?g1 i b = drawn_for g i b"
      by (simp add: drawn_for_def)
  qed
  have "for_each (j # js) (draw_cell i) (g, out)
        = Some (g', out @ concat (map (drawn_for g i) (j # js)))"
    using first rest same by simp
  moreover have "\<forall>a<rows. \<forall>b<cols.
      g' ! a ! b = (if a = i \<and> b \<in> set (j # js) then fade (g ! a ! b) else g ! a ! b)"
    using nth' nth1 notin by auto
  ultimately show ?case using wf' by blast
qed

lemma draw_rows:
  assumes "wf_grid rows cols g" "set is \<subseteq> {..<rows}" "distinct is"
  shows "\<exists>g'. for_each is (\<lambda>i. for_each [0..<cols] (draw_cell i)) (g, out)
                = Some (g', out @ concat (map (\<lambda>i. concat (map (drawn_for g i) [0..<cols])) is)) \<and>
              wf_grid rows cols g' \<and>
              (\<forall>a<rows. \<forall>b<cols.
                 g' ! a ! b = (if a \<in> set is then fade (g ! a ! b) else g ! a ! b))"
  using assms
proof (induction "is" arbitrary: g out)
  case Nil
  then show ?case by simp
next
  case (Cons i "is")
  from Cons.prems have i: "i < rows" and notin: "i \<notin> set is"
    and rest_ok: "set is \<subseteq> {..<rows}" "distinct is" by auto
  let ?out1 = "out @ concat (map (drawn_for g i) [0..<cols])"
  have "set [0..<cols] \<subseteq> {..<cols}" "distinct [0..<cols]" by auto
  from draw_row [OF Cons.prems(1) i this, of out]
  obtain g1 where row: "for_each [0..<cols] (draw_cell i) (g, out) = Some (g1, ?out1)"
    and wf1: "wf_grid rows cols g1"
    and nth1: "\<forall>a<rows. \<forall>b<cols.
        g1 ! a ! b = (if a = i \<and> b \<in> set [0..<cols] then fade (g ! a ! b) else g ! a ! b)"
    by auto
  from Cons.IH [OF wf1 rest_ok, of ?out1]
  obtain g' where rest: "for_each is (\<lambda>i. for_each [0..<cols] (draw_cell i)) (g1, ?out1)
        = Some (g', ?out1 @ concat (map (\<lambda>i. concat (map (drawn_for g1 i) [0..<cols])) is))"
    and wf': "wf_grid rows cols g'"
    and nth': "\<forall>a<rows. \<forall>b<cols.
        g' ! a ! b = (if a \<in> set is then fade (g1 ! a ! b) else g1 ! a ! b)"
    by blast
  have same: "map (\<lambda>i. concat (map (drawn_for g1 i) [0..<cols])) is
            = map (\<lambda>i. concat (map (drawn_for g i) [0..<cols])) is"
  proof (rule map_cong [OF refl])
    fix a assume a: "a \<in> set is"
    with rest_ok notin have a': "a < rows" "a \<noteq> i" by auto
    have "map (drawn_for g1 a) [0..<cols] = map (drawn_for g a) [0..<cols]"
    proof (rule map_cong [OF refl])
      fix b assume "b \<in> set [0..<cols]"
      then have "b < cols" by simp
      with nth1 a' show "drawn_for g1 a b = drawn_for g a b"
        by (simp add: drawn_for_def)
    qed
    then show "concat (map (drawn_for g1 a) [0..<cols]) = concat (map (drawn_for g a) [0..<cols])"
      by (rule arg_cong)
  qed
  have "for_each (i # is) (\<lambda>i. for_each [0..<cols] (draw_cell i)) (g, out)
        = Some (g', out @ concat (map (\<lambda>i. concat (map (drawn_for g i) [0..<cols])) (i # is)))"
    using row rest same by simp
  moreover have "\<forall>a<rows. \<forall>b<cols.
      g' ! a ! b = (if a \<in> set (i # is) then fade (g ! a ! b) else g ! a ! b)"
    using nth' nth1 notin by auto
  ultimately show ?case using wf' by blast
qed

lemma concat_singletons:
  "concat (map (\<lambda>y. if P y then [f y] else []) ys) = map f (filter P ys)"
  by (induction ys) simp_all

lemma product_filter_map:
  "map F (filter Q (List.product xs ys))
   = concat (map (\<lambda>x. map (\<lambda>y. F (x, y)) (filter (\<lambda>y. Q (x, y)) ys)) xs)"
  by (induction xs) (simp_all add: filter_map o_def)

lemma draw_cells_wf:
  assumes "wf_grid rows cols g"
  shows "draw_cells rows cols g =
         Some (map (map fade) g,
               map (\<lambda>(i, j). circle_at i j (opacity (fade (g ! i ! j))))
                 (filter (\<lambda>(i, j). opacity (fade (g ! i ! j)) > 0)
                    (List.product [0..<rows] [0..<cols])))"
proof -
  have "set [0..<rows] \<subseteq> {..<rows}" "distinct [0..<rows]" by auto
  from draw_rows [OF assms this, of "[]"]
  obtain g' where run: "draw_cells rows cols g
        = Some (g', concat (map (\<lambda>i. concat (map (drawn_for g i) [0..<cols])) [0..<rows]))"
    and wf': "wf_grid rows cols g'"
    and nth': "\<forall>a<rows. \<forall>b<cols. g' ! a ! b = fade (g ! a ! b)"
    unfolding draw_cells_def by auto
  have "g' = map (map fade) g"
  proof (rule nth_equalityI)
    show "length g' = length (map (map fade) g)"
      using wf' assms by (simp add: wf_grid_def)
  next
    fix a assume "a < length g'"
    with wf' have a: "a < rows" by (simp add: wf_grid_def)
    then have la: "length (g' ! a) = cols" "length (g ! a) = cols" "a < length g"
      using wf' assms by (simp_all add: wf_grid_def list_all_length)
    show "g' ! a = map (map fade) g ! a"
    proof (rule nth_equalityI)
      show "length (g' ! a) = length (map (map fade) g ! a)" using la by simp
    next
      fix b assume "b < length (g' ! a)"
      with la have "b < cols" by simp
      with nth' a la show "g' ! a ! b = map (map fade) g ! a ! b" by simp
    qed
  qed
  moreover have "concat (map (\<lambda>i. concat (map (drawn_for g i) [0..<cols])) [0..<rows])
      = map (\<lambda>(i, j). circle_at i j (opacity (fade (g ! i ! j))))
          (filter (\<lambda>(i, j). opacity (fade (g ! i ! j)) > 0) (List.product [0..<rows] [0..<cols]))"
    unfolding product_filter_map drawn_for_def concat_singletons by simp
  ultimately show ?thesis using run by simp
qed

lemma circle_at_inj:
  "circle_at i j a = circle_at i' j' a' \<longleftrightarrow> i = i' \<and> j = j' \<and> a = a'"
  by (auto simp: circle_at_def cellSize_def)

lemma wf_grid_map: "wf_grid rows cols g \<Longrightarrow> wf_grid rows cols (map (map f) g)"
  by (simp add: wf_grid_def list_all_length)

lemma in_visible_cells:
  "(i, j) \<in> set (visible_cells rows cols g) \<longleftrightarrow> i < rows \<and> j < cols \<and> 0 < opacity (g ! i ! j)"
  by (auto simp: visible_cells_def)

lemma product_row_major:
  "sorted_wrt (<) xs \<Longrightarrow> sorted_wrt (<) ys \<Longrightarrow> sorted_wrt row_major (List.product xs ys)"
proof (induction xs)
  case Nil
  then show ?case by simp
next
  case (Cons x xs)
  have "sorted_wrt row_major (map (Pair x) ys)"
    using Cons.prems(2) by (simp add: sorted_wrt_map row_major_def)
  moreover have "sorted_wrt row_major (List.product xs ys)"
    using Cons by simp
  moreover have "\<forall>p\<in>set (map (Pair x) ys). \<forall>q\<in>set (List.product xs ys). row_major p q"
    using Cons.prems(1) by (auto simp: row_major_def)
  ultimately show ?case by (simp add: sorted_wrt_append)
qed

lemma visible_cells_row_major: "sorted_wrt row_major (visible_cells rows cols g)"
  unfolding visible_cells_def
  by (intro sorted_wrt_filter product_row_major) simp_all

lemma draw_wf:
  assumes "wf_grid rows cols g"
  shows "\<exists>next. draw rows cols g =
             Some (next, map (\<lambda>(i, j). circle_at i j (opacity (next ! i ! j)))
                           (visible_cells rows cols next)) \<and>
           wf_grid rows cols next \<and>
           (\<forall>i<rows. \<forall>j<cols. opacity (next ! i ! j) = opacity (fade (g ! i ! j)))"
proof -
  let ?g1 = "map (map fade) g"
  have wf1: "wf_grid rows cols ?g1" using assms by (rule wf_grid_map)
  from step_total [OF wf1] obtain "next" where nx: "step rows cols ?g1 = Some next" ..
  have wfn: "wf_grid rows cols next" using wf1 nx by (rule step_wf)
  have op: "opacity (next ! i ! j) = opacity (fade (g ! i ! j))" if "i < rows" "j < cols" for i j
  proof -
    from that assms have i: "i < length g" and j: "j < length (g ! i)"
      by (simp_all add: wf_grid_def list_all_length)
    then have "i < length ?g1" "j < length (?g1 ! i)" by simp_all
    from step_rows(3) [OF nx this]
    have "opacity (next ! i ! j) = opacity (?g1 ! i ! j)" by (rule next_cell_opacity)
    with i j show ?thesis by simp
  qed
  have vis: "filter (\<lambda>(i, j). opacity (fade (g ! i ! j)) > 0) (List.product [0..<rows] [0..<cols])
             = visible_cells rows cols next"
    unfolding visible_cells_def by (rule filter_cong [OF refl]) (auto simp: op)
  have "map (\<lambda>(i, j). circle_at i j (opacity (fade (g ! i ! j)))) (visible_cells rows cols next)
        = map (\<lambda>(i, j). circle_at i j (opacity (next ! i ! j))) (visible_cells rows cols next)"
    by (rule map_cong [OF refl]) (auto simp: in_visible_cells op)
  with vis have "draw rows cols g =
      Some (next, map (\<lambda>(i, j). circle_at i j (opacity (next ! i ! j)))
                    (visible_cells rows cols next))"
    by (simp add: draw_def draw_cells_wf [OF assms] nx)
  with wfn op show ?thesis by blast
qed


subsection \<open>The fade of a single cell\<close>

text \<open>
  The two trajectories in doubles: \<open>0, 0.2, 0.4, 0.5\<close> (the sum \<open>0.4 + 0.2\<close> rounds to
  \<open>0.6000000000000001\<close> and is capped), and \<open>0.5, 0.3, 0.09999999999999998, 0\<close> (the last
  difference is negative and is floored).
\<close>

lemma fade_rising:
  "fade \<lparr>alive = True, opacity = 0\<rparr>
     = \<lparr>alive = True, opacity = 3602879701896397 / 18014398509481984\<rparr>"
  "fade \<lparr>alive = True, opacity = 3602879701896397 / 18014398509481984\<rparr>
     = \<lparr>alive = True, opacity = 3602879701896397 / 9007199254740992\<rparr>"
  "fade \<lparr>alive = True, opacity = 3602879701896397 / 9007199254740992\<rparr>
     = \<lparr>alive = True, opacity = 1 / 2\<rparr>"
  "fade \<lparr>alive = True, opacity = 1 / 2\<rparr> = \<lparr>alive = True, opacity = 1 / 2\<rparr>"
  by code_simp+

lemma fade_falling:
  "fade \<lparr>alive = False, opacity = 1 / 2\<rparr>
     = \<lparr>alive = False, opacity = 5404319552844595 / 18014398509481984\<rparr>"
  "fade \<lparr>alive = False, opacity = 5404319552844595 / 18014398509481984\<rparr>
     = \<lparr>alive = False, opacity = 900719925474099 / 9007199254740992\<rparr>"
  "fade \<lparr>alive = False, opacity = 900719925474099 / 9007199254740992\<rparr>
     = \<lparr>alive = False, opacity = 0\<rparr>"
  "fade \<lparr>alive = False, opacity = 0\<rparr> = \<lparr>alive = False, opacity = 0\<rparr>"
  by code_simp+

text \<open>Off the two trajectories: \<open>0.1 + 0.2\<close> is \<open>0.30000000000000004\<close>.\<close>

lemma fade_rounds:
  "fade \<lparr>alive = True, opacity = to_double (1 / 10)\<rparr>
     = \<lparr>alive = True, opacity = 1351079888211149 / 4503599627370496\<rparr>"
  "to_double (3 / 10) < 1351079888211149 / 4503599627370496"
  by code_simp+

lemma fade_rising_from3:
  "(fade ^^ (3 + k)) \<lparr>alive = True, opacity = 0\<rparr> = \<lparr>alive = True, opacity = 1 / 2\<rparr>"
  by (induction k) (simp_all add: numeral_3_eq_3 fade_rising)

lemma fade_falling_from3:
  "(fade ^^ (3 + k)) \<lparr>alive = False, opacity = 1 / 2\<rparr> = \<lparr>alive = False, opacity = 0\<rparr>"
  by (induction k) (simp_all add: numeral_3_eq_3 fade_falling)

lemma tick_cases:
  fixes n :: nat
  obtains "n = 0" | "n = 1" | "n = 2" | k where "n = 3 + k"
proof -
  have "n = 0 \<or> n = 1 \<or> n = 2 \<or> (\<exists>k. n = 3 + k)" by presburger
  then show ?thesis using that by blast
qed


subsection \<open>Construction and scheduling\<close>

text \<open>
  The canvas of the component is 1500 by 600 pixels, which gives 100 rows of 250 cells.
\<close>

lemma shipped_grid_size:
  "wf_grid 100 250 (initialize (600 div cellSize) (1500 div cellSize) random)"
  by (simp add: wf_grid_def initialize_def cellSize_def list_all_iff)

lemma wf_initialize: "wf_grid rows cols (initialize rows cols random)"
  by (simp add: wf_grid_def initialize_def list_all_iff)


text \<open>
  When the cleanup runs while an animation frame is pending, the frame is cancelled and
  nothing is left that could call \<open>draw\<close> again.
\<close>

lemma cleanup_cancels_pending_frame:
  assumes "frames s = [h]" "animationFrameId s = Some h" "timeouts s = 0"
  shows "\<exists>s'. fire rows cols Cleanup s = Some s' \<and> drawn s' = drawn s \<and>
              grid_var s' = grid_var s \<and> (\<forall>es. run rows cols es s' = Some s')"
proof -
  let ?s' = "s\<lparr>frames := []\<rparr>"
  have quiet: "fire rows cols e ?s' = Some ?s'" for e
    using assms by (cases e) (simp_all add: fire_def)
  have "run rows cols es ?s' = Some ?s'" for es
    by (induction es) (simp_all add: quiet)
  moreover have "fire rows cols Cleanup s = Some ?s'"
    using assms by (simp add: fire_def)
  ultimately show ?thesis by simp
qed

subsection \<open>Wrapped positions in one dimension\<close>

lemma wrap_less:
  assumes "0 < n"
  shows "wrap x d n < n"
proof -
  from assms have pos: "0 < int n" by simp
  have "0 \<le> (x + d + int n) mod int n" using pos by (rule pos_mod_sign)
  moreover have "(x + d + int n) mod int n < int n" using pos by (rule pos_mod_bound)
  ultimately show ?thesis unfolding wrap_def by arith
qed

lemma wrap_pred: "i < n \<Longrightarrow> wrap (int i) (-1) n = (if i = 0 then n - 1 else i - 1)"
proof (cases "i = 0")
  case True
  assume "i < n"
  with True have "(int i + -1 + int n) mod int n = int n - 1"
    by (simp add: zmod_minus1)
  with True show ?thesis by (simp add: wrap_def nat_diff_distrib')
next
  case False
  assume "i < n"
  have "(int i + -1 + int n) mod int n = (int i - 1) mod int n" by simp
  also have "\<dots> = int i - 1" using False \<open>i < n\<close> by (simp add: mod_pos_pos_trivial)
  finally show ?thesis using False by (simp add: wrap_def nat_diff_distrib')
qed

lemma wrap_same: "i < n \<Longrightarrow> wrap (int i) 0 n = i"
  by (simp add: wrap_def)

lemma wrap_succ: "i < n \<Longrightarrow> wrap (int i) 1 n = (if i + 1 = n then 0 else i + 1)"
proof (cases "i + 1 = n")
  case True
  then have "int i + 1 + int n = int n + int n" by simp
  then have "(int i + 1 + int n) mod int n = 0" by (simp only: mod_add_self2 mod_self)
  with True show ?thesis by (simp add: wrap_def)
next
  case False
  assume "i < n"
  have "(int i + 1 + int n) mod int n = (int i + 1) mod int n" by simp
  also have "\<dots> = int i + 1" using False \<open>i < n\<close> by (simp add: mod_pos_pos_trivial)
  finally show ?thesis using False by (simp add: wrap_def nat_add_distrib)
qed

lemma near_expand:
  "i < n \<Longrightarrow> near P n i =
     (if P (if i = 0 then n - 1 else i - 1) then 1 else 0) + (if P i then 1 else 0)
     + (if P (if i + 1 = n then 0 else i + 1) then 1 else 0)"
  unfolding near_def by (simp only: list.map sum_list.Cons sum_list.Nil wrap_pred wrap_same wrap_succ)

lemma near_point:
  assumes "1 \<le> p" "p + 1 < n" "a < n"
  shows "near (\<lambda>x. x = p) n a = (if in_line p a then 1 else 0)"
  using assms unfolding near_expand [OF assms(3)] in_line_def by auto

lemma near_segment:
  assumes "1 \<le> q" "q + 1 < n" "4 \<le> n" "b < n"
  shows "(near (in_line q) n b = 3 \<longleftrightarrow> b = q)"
    and "in_line q b \<Longrightarrow> b \<noteq> q \<Longrightarrow> near (in_line q) n b = 2"
  using assms unfolding near_expand [OF assms(4)] in_line_def by (auto split: if_splits)

subsection \<open>Grids whose live cells form a product pattern\<close>

text \<open>
  When the live cells are those at \<open>(a, b)\<close> with \<open>P a\<close> and \<open>Q b\<close>, the nine-cell sum
  is the product of the two one-dimensional counts.
\<close>

lemma sum9_product:
  fixes p q :: "int \<Rightarrow> int"
  shows "(\<Sum>i\<leftarrow>[-1, 0, 1]. \<Sum>j\<leftarrow>[-1, 0, 1]. p i * q j)
         = (\<Sum>i\<leftarrow>[-1, 0, 1]. p i) * (\<Sum>j\<leftarrow>[-1, 0, 1]. q j)"
  by (simp add: algebra_simps)

lemma countNeighbors_product:
  assumes wf: "wf_grid rows cols g"
    and pat: "\<And>a b. a < rows \<Longrightarrow> b < cols \<Longrightarrow> alive (g ! a ! b) \<longleftrightarrow> P a \<and> Q b"
    and i: "i < rows" and j: "j < cols"
  shows "countNeighbors rows cols g (int i) (int j)
         = Some (near P rows i * near Q cols j - (if P i \<and> Q j then 1 else 0))"
proof -
  define p :: "int \<Rightarrow> int" where "p d = (if P (wrap (int i) d rows) then 1 else 0)" for d
  define q :: "int \<Rightarrow> int" where "q d = (if Q (wrap (int j) d cols) then 1 else 0)" for d
  have pos: "0 < rows" "0 < cols" using i j by auto
  have cell: "alive_num (g ! wrap (int i) di rows ! wrap (int j) dj cols) = p di * q dj" for di dj
    using pat [OF wrap_less [OF pos(1)] wrap_less [OF pos(2)], of "int i" di "int j" dj]
    by (simp add: alive_num_def p_def q_def)
  have centre: "alive_num (g ! nat (int i) ! nat (int j)) = (if P i \<and> Q j then 1 else 0)"
    using pat [OF i j] by (simp add: alive_num_def)
  have "countNeighbors rows cols g (int i) (int j)
        = Some ((\<Sum>di\<leftarrow>[-1, 0, 1]. \<Sum>dj\<leftarrow>[-1, 0, 1]. p di * q dj) - (if P i \<and> Q j then 1 else 0))"
    using countNeighbors_sum9 [OF wf, of "int i" "int j"] i j
    unfolding cell centre by simp
  also have "(\<Sum>di\<leftarrow>[-1, 0, 1]. \<Sum>dj\<leftarrow>[-1, 0, 1]. p di * q dj) = near P rows i * near Q cols j"
    unfolding sum9_product near_def p_def q_def ..
  finally show ?thesis .
qed

lemma step_product:
  assumes wf: "wf_grid rows cols g"
    and pat: "\<And>a b. a < rows \<Longrightarrow> b < cols \<Longrightarrow> alive (g ! a ! b) \<longleftrightarrow> P a \<and> Q b"
  shows "\<exists>g'. step rows cols g = Some g' \<and> wf_grid rows cols g' \<and>
           (\<forall>i<rows. \<forall>j<cols.
              opacity (g' ! i ! j) = opacity (g ! i ! j) \<and>
              (alive (g' ! i ! j) \<longleftrightarrow>
                 life_rule (P i \<and> Q j)
                   (near P rows i * near Q cols j - (if P i \<and> Q j then 1 else 0))))"
proof -
  from step_total [OF wf] obtain g' where g': "step rows cols g = Some g'" ..
  have wf': "wf_grid rows cols g'" using wf g' by (rule step_wf)
  have "opacity (g' ! i ! j) = opacity (g ! i ! j) \<and>
        (alive (g' ! i ! j) \<longleftrightarrow>
           life_rule (P i \<and> Q j) (near P rows i * near Q cols j - (if P i \<and> Q j then 1 else 0)))"
    if i: "i < rows" and j: "j < cols" for i j
  proof -
    let ?n = "near P rows i * near Q cols j - (if P i \<and> Q j then 1 else 0)"
    from wf i j have ig: "i < length g" and jg: "j < length (g ! i)"
      by (simp_all add: wf_grid_def list_all_length)
    have nc: "next_cell rows cols g i (j, g ! i ! j) = Some (g' ! i ! j)"
      using g' ig jg by (rule step_rows(3))
    have n: "countNeighbors rows cols g (int i) (int j) = Some ?n"
      using wf pat i j by (rule countNeighbors_product)
    have "next_cell rows cols g i (j, g ! i ! j) =
        Some \<lparr>alive = (if alive (g ! i ! j) then 2 \<le> ?n \<and> ?n \<le> 3 else ?n = 3),
              opacity = opacity (g ! i ! j)\<rparr>"
      by (simp add: next_cell_def n)
    with nc have "g' ! i ! j =
        \<lparr>alive = (if alive (g ! i ! j) then 2 \<le> ?n \<and> ?n \<le> 3 else ?n = 3),
         opacity = opacity (g ! i ! j)\<rparr>"
      by simp
    then have "opacity (g' ! i ! j) = opacity (g ! i ! j)"
      and "alive (g' ! i ! j) \<longleftrightarrow> (if alive (g ! i ! j) then 2 \<le> ?n \<and> ?n \<le> 3 else ?n = 3)"
      by simp_all
    then show ?thesis
      unfolding pat [OF i j] life_rule_def by auto
  qed
  with g' wf' show ?thesis by blast
qed

lemma blinker_rule:
  assumes "1 \<le> p" "p + 1 < m" "1 \<le> q" "q + 1 < n" "4 \<le> n" "a < m" "b < n"
  shows "life_rule (a = p \<and> in_line q b)
           (near (\<lambda>x. x = p) m a * near (in_line q) n b - (if a = p \<and> in_line q b then 1 else 0))
         \<longleftrightarrow> in_line p a \<and> b = q"
proof -
  define A where "A = near (\<lambda>x. x = p) m a"
  define B where "B = near (in_line q) n b"
  have A: "A = (if in_line p a then 1 else 0)"
    unfolding A_def using assms(1,2,6) by (rule near_point)
  have B3: "B = 3 \<longleftrightarrow> b = q"
    unfolding B_def using assms(3,4,5,7) by (rule near_segment(1))
  have B2: "B = 2" if "in_line q b" "b \<noteq> q"
    unfolding B_def using assms(3,4,5,7) that by (rule near_segment(2))
  have centre: "a = p \<Longrightarrow> in_line p a" "b = q \<Longrightarrow> in_line q b"
    by (simp_all add: in_line_def)
  have "life_rule (a = p \<and> in_line q b) (A * B - (if a = p \<and> in_line q b then 1 else 0))
        \<longleftrightarrow> in_line p a \<and> b = q"
  proof (cases "in_line p a")
    case False
    with centre(1) have "a \<noteq> p" by blast
    with False A show ?thesis by (simp add: life_rule_def)
  next
    case True
    with A have A1: "A = 1" by simp
    show ?thesis
    proof (cases "b = q")
      case True
      with B3 have "B = 3" by simp
      with A1 True \<open>in_line p a\<close> centre(2) show ?thesis by (simp add: life_rule_def)
    next
      case False
      with B3 have n3: "B \<noteq> 3" by simp
      show ?thesis
      proof (cases "a = p \<and> in_line q b")
        case True
        with B2 False have "B = 2" by simp
        with A1 True False show ?thesis by (simp add: life_rule_def)
      next
        case False
        with A1 n3 \<open>b \<noteq> q\<close> show ?thesis by (auto simp: life_rule_def)
      qed
    qed
  qed
  then show ?thesis unfolding A_def B_def .
qed

lemma grid_alive_nth:
  assumes "map (map alive) g = map (\<lambda>i. map (\<lambda>j. F i j) [0..<cols]) [0..<rows]"
  shows "wf_grid rows cols g" and "\<And>a b. a < rows \<Longrightarrow> b < cols \<Longrightarrow> alive (g ! a ! b) \<longleftrightarrow> F a b"
proof -
  have len: "length g = rows"
    using arg_cong [OF assms, of length] by simp
  have row: "map alive (g ! a) = map (\<lambda>j. F a j) [0..<cols]" if "a < rows" for a
    using arg_cong [OF assms, of "\<lambda>xs. xs ! a"] that len by simp
  have rlen: "length (g ! a) = cols" if "a < rows" for a
    using arg_cong [OF row [OF that], of length] by simp
  show "wf_grid rows cols g"
    using len rlen by (simp add: wf_grid_def list_all_length)
  show "alive (g ! a ! b) \<longleftrightarrow> F a b" if "a < rows" "b < cols" for a b
    using arg_cong [OF row [OF that(1)], of "\<lambda>xs. xs ! b"] that rlen by simp
qed

lemma grid_alive_eq:
  assumes "wf_grid rows cols g" "\<And>a b. a < rows \<Longrightarrow> b < cols \<Longrightarrow> alive (g ! a ! b) \<longleftrightarrow> F a b"
  shows "map (map alive) g = map (\<lambda>i. map (\<lambda>j. F i j) [0..<cols]) [0..<rows]"
proof (rule nth_equalityI)
  show "length (map (map alive) g) = length (map (\<lambda>i. map (\<lambda>j. F i j) [0..<cols]) [0..<rows])"
    using assms(1) by (simp add: wf_grid_def)
next
  fix a assume "a < length (map (map alive) g)"
  with assms(1) have a: "a < rows" "a < length g" "length (g ! a) = cols"
    by (simp_all add: wf_grid_def list_all_length)
  have "map alive (g ! a) = map (\<lambda>j. F a j) [0..<cols]"
    using a assms(2) by (intro nth_equalityI) simp_all
  with a show "map (map alive) g ! a = map (\<lambda>i. map (\<lambda>j. F i j) [0..<cols]) [0..<rows] ! a"
    by simp
qed

lemma grid_eqI:
  assumes "wf_grid rows cols g" "wf_grid rows cols g'"
    and "\<And>a b. a < rows \<Longrightarrow> b < cols \<Longrightarrow> g' ! a ! b = g ! a ! b"
  shows "g' = g"
proof (rule nth_equalityI)
  show "length g' = length g" using assms(1,2) by (simp add: wf_grid_def)
next
  fix a assume "a < length g'"
  with assms(1,2) have a: "a < rows" "length (g ! a) = cols" "length (g' ! a) = cols"
    by (simp_all add: wf_grid_def list_all_length)
  then show "g' ! a = g ! a"
    using assms(3) by (intro nth_equalityI) simp_all
qed

section \<open>The life rule\<close>

text \<open>
  Claim C1. On a well-formed grid the generation transition returns a grid of the same
  shape, and for every cell the new alive flag is true exactly when the cell is alive
  with 2 or 3 live neighbours, or dead with exactly 3, where the number of live
  neighbours is counted on the input grid, over the eight wrapped neighbour positions.
\<close>

theorem step_life_rule:
  assumes "wf_grid rows cols g"
  shows "\<exists>g'. step rows cols g = Some g' \<and> wf_grid rows cols g' \<and>
           (\<forall>i<rows. \<forall>j<cols.
              (alive (g' ! i ! j) \<longleftrightarrow>
                 (alive (g ! i ! j) \<and>
                    (live_neighbours rows cols g (int i) (int j) = 2 \<or>
                     live_neighbours rows cols g (int i) (int j) = 3)) \<or>
                 (\<not> alive (g ! i ! j) \<and> live_neighbours rows cols g (int i) (int j) = 3)))"
proof -
  from step_total [OF assms] obtain g' where g': "step rows cols g = Some g'" ..
  have wf': "wf_grid rows cols g'" using assms g' by (rule step_wf)
  have "alive (g' ! i ! j) \<longleftrightarrow>
          (alive (g ! i ! j) \<and>
             (live_neighbours rows cols g (int i) (int j) = 2 \<or>
              live_neighbours rows cols g (int i) (int j) = 3)) \<or>
          (\<not> alive (g ! i ! j) \<and> live_neighbours rows cols g (int i) (int j) = 3)"
    if i: "i < rows" and j: "j < cols" for i j
  proof -
    let ?n = "live_neighbours rows cols g (int i) (int j)"
    from assms i j have ig: "i < length g" and jg: "j < length (g ! i)"
      by (simp_all add: wf_grid_def list_all_length)
    have n: "countNeighbors rows cols g (int i) (int j) = Some ?n"
      using assms i j by (intro countNeighbors_wf) simp_all
    have "next_cell rows cols g i (j, g ! i ! j) =
          Some \<lparr>alive = (if alive (g ! i ! j) then 2 \<le> ?n \<and> ?n \<le> 3 else ?n = 3),
                opacity = opacity (g ! i ! j)\<rparr>"
      by (simp add: next_cell_def n)
    with step_rows(3) [OF g' ig jg]
    have "g' ! i ! j = \<lparr>alive = (if alive (g ! i ! j) then 2 \<le> ?n \<and> ?n \<le> 3 else ?n = 3),
                opacity = opacity (g ! i ! j)\<rparr>" by simp
    then have "alive (g' ! i ! j) \<longleftrightarrow>
        (if alive (g ! i ! j) then 2 \<le> ?n \<and> ?n \<le> 3 else ?n = 3)"
      by simp
    then show ?thesis by auto
  qed
  with g' wf' show ?thesis by blast
qed

theorem step_life_rule_witness:
  "wf_grid 2 3 small_grid \<and>
   live_neighbours 2 3 small_grid 0 0 = 3 \<and> live_neighbours 2 3 small_grid 0 1 = 4 \<and>
   (\<exists>g'. step 2 3 small_grid = Some g' \<and> wf_grid 2 3 g' \<and>
      alive (g' ! 0 ! 0) \<and> \<not> alive (g' ! 0 ! 1))"
proof -
  have wf: "wf_grid 2 3 small_grid" by (rule wf_small_grid)
  have n: "live_neighbours 2 3 small_grid 0 0 = 3" "live_neighbours 2 3 small_grid 0 1 = 4"
    by (simp_all add: live_neighbours_def neighbour_positions_def neighbour_offsets_def wrap_def
        small_grid_def live_def dead_def)
  have a: "alive (small_grid ! 0 ! 0)" "\<not> alive (small_grid ! 0 ! 1)"
    by (simp_all add: small_grid_def live_def dead_def)
  from step_life_rule [OF wf] obtain g'
    where g': "step 2 3 small_grid = Some g'" "wf_grid 2 3 g'"
      and rule: "\<forall>i<2. \<forall>j<3.
              (alive (g' ! i ! j) \<longleftrightarrow>
                 (alive (small_grid ! i ! j) \<and>
                    (live_neighbours 2 3 small_grid (int i) (int j) = 2 \<or>
                     live_neighbours 2 3 small_grid (int i) (int j) = 3)) \<or>
                 (\<not> alive (small_grid ! i ! j) \<and>
                    live_neighbours 2 3 small_grid (int i) (int j) = 3))"
    by blast
  from rule [rule_format, of 0 0] rule [rule_format, of 0 1] n a
  have "alive (g' ! 0 ! 0)" "\<not> alive (g' ! 0 ! 1)" by simp_all
  with wf n g' show ?thesis by blast
qed

section \<open>Neighbour counting on the torus\<close>

text \<open>
  Claim C2. On a well-formed grid and for a coordinate in range, \<open>countNeighbors\<close>
  returns the number of live cells among the eight neighbour positions, each index
  wrapped as \<open>(index + delta + dimension) mod dimension\<close>. The cell \<open>(0, 0)\<close> is among
  the neighbour positions of \<open>(rows - 1, cols - 1)\<close>, of \<open>(rows - 1, 0)\<close> and of
  \<open>(0, cols - 1)\<close>, so when it is alive each of these three counts is at least 1. A cell
  is counted once for every offset that reaches it: in a 1 by 1 grid the count of the
  single live cell is 8.
\<close>

theorem countNeighbors_toroidal:
  assumes "wf_grid rows cols g" "0 \<le> x" "x < int rows" "0 \<le> y" "y < int cols"
  shows "countNeighbors rows cols g x y = Some (live_neighbours rows cols g x y) \<and>
         (0, 0) \<in> set (neighbour_positions rows cols (int (rows - 1)) (int (cols - 1))) \<and>
         (0, 0) \<in> set (neighbour_positions rows cols (int (rows - 1)) 0) \<and>
         (0, 0) \<in> set (neighbour_positions rows cols 0 (int (cols - 1))) \<and>
         (alive (g ! 0 ! 0) \<longrightarrow>
            1 \<le> live_neighbours rows cols g (int (rows - 1)) (int (cols - 1)) \<and>
            1 \<le> live_neighbours rows cols g (int (rows - 1)) 0 \<and>
            1 \<le> live_neighbours rows cols g 0 (int (cols - 1))) \<and>
         countNeighbors 1 1 [[\<lparr>alive = True, opacity = a\<rparr>]] 0 0 = Some 8"
proof -
  have pos: "0 < rows" "0 < cols" using assms by auto
  note origin = origin_wraps [OF pos]
  have contributes: "alive (g ! 0 ! 0) \<longrightarrow>
            1 \<le> live_neighbours rows cols g (int (rows - 1)) (int (cols - 1)) \<and>
            1 \<le> live_neighbours rows cols g (int (rows - 1)) 0 \<and>
            1 \<le> live_neighbours rows cols g 0 (int (cols - 1))"
    using origin by (blast intro: live_neighbours_pos)
  have "wf_grid 1 1 [[\<lparr>alive = True, opacity = a\<rparr>]]" by (simp add: wf_grid_def)
  then have "countNeighbors 1 1 [[\<lparr>alive = True, opacity = a\<rparr>]] 0 0
             = Some (live_neighbours 1 1 [[\<lparr>alive = True, opacity = a\<rparr>]] 0 0)"
    by (rule countNeighbors_wf) simp_all
  also have "live_neighbours 1 1 [[\<lparr>alive = True, opacity = a\<rparr>]] 0 0 = 8"
  proof -
    have "neighbour_positions 1 1 0 0 =
          [(0, 0), (0, 0), (0, 0), (0, 0), (0, 0), (0, 0), (0, 0), (0, 0)]"
      by (simp add: neighbour_positions_def neighbour_offsets_def wrap_def)
    then show ?thesis
      unfolding live_neighbours_def by simp
  qed
  finally show ?thesis
    using countNeighbors_wf [OF assms] origin contributes by simp
qed

theorem countNeighbors_toroidal_witness:
  "wf_grid 2 3 small_grid \<and> alive (small_grid ! 0 ! 0) \<and>
   countNeighbors 2 3 small_grid 0 0 = Some 3 \<and>
   (0, 0) \<in> set (neighbour_positions 2 3 1 2) \<and>
   1 \<le> live_neighbours 2 3 small_grid 1 2"
proof -
  have wf: "wf_grid 2 3 small_grid" by (rule wf_small_grid)
  have a: "alive (small_grid ! 0 ! 0)" by (simp add: small_grid_def live_def)
  have "live_neighbours 2 3 small_grid 0 0 = 3"
    by (simp add: live_neighbours_def neighbour_positions_def neighbour_offsets_def wrap_def
        small_grid_def live_def dead_def)
  with wf a countNeighbors_toroidal [OF wf, of 0 0] show ?thesis by simp
qed

section \<open>The initial grid\<close>

text \<open>
  Claim C3. The claim asks that the initial opacity of a cell is 0.5 exactly when the cell
  is alive. The code draws a second random number for the opacity: when the first call
  of \<open>Math.random\<close> returns 0.9 and the second 0.1, the cell is alive with opacity 0, and
  with the two results exchanged it is dead with opacity 0.5.
\<close>

theorem initialize_opacity_mismatch:
  "initialize 1 1 (draws [9 / 10, 1 / 10]) = [[\<lparr>alive = True, opacity = 0\<rparr>]] \<and>
   initialize 1 1 (draws [1 / 10, 9 / 10]) = [[\<lparr>alive = False, opacity = 1 / 2\<rparr>]]"
  by (simp add: initialize_def init_cell_def draws_def)

section \<open>The blinker\<close>

text \<open>
  Claim C4. On a grid of at least 4 rows and 4 columns whose live cells are exactly the
  horizontal line of three cells around \<open>(r, c)\<close>, the line not touching the border, one
  generation gives the grid whose live cells are exactly the vertical line of three cells
  around \<open>(r, c)\<close>, and the generation after that gives back the original grid.
\<close>

theorem blinker_period_two:
  assumes "4 \<le> rows" "4 \<le> cols" "1 \<le> r" "r + 1 < rows" "1 \<le> c" "c + 1 < cols"
    and "map (map alive) g = hline rows cols r c"
  shows "\<exists>g1. step rows cols g = Some g1 \<and> map (map alive) g1 = vline rows cols r c \<and>
              step rows cols g1 = Some g"
proof -
  have wf: "wf_grid rows cols g"
    and pat: "\<And>a b. a < rows \<Longrightarrow> b < cols \<Longrightarrow> alive (g ! a ! b) \<longleftrightarrow> a = r \<and> in_line c b"
    using grid_alive_nth [OF assms(7) [unfolded hline_def]] by blast+
  from step_product [of rows cols g "\<lambda>a. a = r" "in_line c", OF wf pat]
  obtain g1 where s1: "step rows cols g = Some g1" and wf1: "wf_grid rows cols g1"
    and c1: "\<forall>i<rows. \<forall>j<cols.
              opacity (g1 ! i ! j) = opacity (g ! i ! j) \<and>
              (alive (g1 ! i ! j) \<longleftrightarrow>
                 life_rule (i = r \<and> in_line c j)
                   (near (\<lambda>a. a = r) rows i * near (in_line c) cols j
                      - (if i = r \<and> in_line c j then 1 else 0)))"
    by blast
  have pat1: "alive (g1 ! a ! b) \<longleftrightarrow> in_line r a \<and> b = c" if "a < rows" "b < cols" for a b
    using c1 that blinker_rule [OF assms(3,4,5,6,2) that] by simp
  have v: "map (map alive) g1 = vline rows cols r c"
    unfolding vline_def using wf1 pat1 by (rule grid_alive_eq)
  from step_product [of rows cols g1 "in_line r" "\<lambda>b. b = c", OF wf1 pat1]
  obtain g2 where s2: "step rows cols g1 = Some g2" and wf2: "wf_grid rows cols g2"
    and c2: "\<forall>i<rows. \<forall>j<cols.
              opacity (g2 ! i ! j) = opacity (g1 ! i ! j) \<and>
              (alive (g2 ! i ! j) \<longleftrightarrow>
                 life_rule (in_line r i \<and> j = c)
                   (near (in_line r) rows i * near (\<lambda>b. b = c) cols j
                      - (if in_line r i \<and> j = c then 1 else 0)))"
    by blast
  have "g2 ! a ! b = g ! a ! b" if ab: "a < rows" "b < cols" for a b
  proof -
    have "alive (g2 ! a ! b) \<longleftrightarrow> in_line c b \<and> a = r"
      using c2 ab blinker_rule [OF assms(5,6,3,4,1) ab(2,1)]
      by (simp add: mult.commute conj_commute)
    then have "alive (g2 ! a ! b) = alive (g ! a ! b)"
      using pat [OF ab] by auto
    moreover have "opacity (g2 ! a ! b) = opacity (g ! a ! b)"
      using c1 c2 ab by simp
    ultimately show ?thesis by simp
  qed
  with wf wf2 have "g2 = g" by (rule grid_eqI)
  with s1 v s2 show ?thesis by blast
qed

theorem blinker_period_two_witness:
  "map (map alive) blinker5 = hline 5 5 2 2 \<and>
   (\<exists>g1. step 5 5 blinker5 = Some g1 \<and> map (map alive) g1 = vline 5 5 2 2 \<and>
          step 5 5 g1 = Some blinker5)"
proof -
  have h: "map (map alive) blinker5 = hline 5 5 2 2" by code_simp
  from h blinker_period_two [of 5 5 2 2 blinker5, OF _ _ _ _ _ _ h] show ?thesis by simp
qed

section \<open>Convergence of the opacity\<close>

text \<open>
  Claim C5. For a cell held alive that starts at opacity 0, the opacities after 0, 1, 2, ...
  updates with \<open>transitionSpeed = 0.2\<close> never decrease, never exceed 0.5, and are exactly
  0.5 from the third update on. For a cell held dead that starts at opacity 0.5 they never
  increase, never go below 0, and are exactly 0 from the third update on. The updates
  are computed in double precision.
\<close>

theorem fade_converges:
  "opacity ((fade ^^ n) \<lparr>alive = True, opacity = 0\<rparr>)
     \<le> opacity ((fade ^^ Suc n) \<lparr>alive = True, opacity = 0\<rparr>) \<and>
   opacity ((fade ^^ n) \<lparr>alive = True, opacity = 0\<rparr>) \<le> 1 / 2 \<and>
   opacity ((fade ^^ (3 + k)) \<lparr>alive = True, opacity = 0\<rparr>) = 1 / 2 \<and>
   opacity ((fade ^^ Suc n) \<lparr>alive = False, opacity = 1 / 2\<rparr>)
     \<le> opacity ((fade ^^ n) \<lparr>alive = False, opacity = 1 / 2\<rparr>) \<and>
   0 \<le> opacity ((fade ^^ n) \<lparr>alive = False, opacity = 1 / 2\<rparr>) \<and>
   opacity ((fade ^^ (3 + k)) \<lparr>alive = False, opacity = 1 / 2\<rparr>) = 0"
proof (cases n rule: tick_cases)
  case 1
  then show ?thesis
    by (simp add: fade_rising fade_falling fade_rising_from3 fade_falling_from3)
next
  case 2
  then show ?thesis
    by (simp add: fade_rising fade_falling fade_rising_from3 fade_falling_from3)
next
  case 3
  then show ?thesis
    by (simp add: numeral_2_eq_2 fade_rising fade_falling fade_rising_from3 fade_falling_from3)
next
  case (4 m)
  have "Suc n = 3 + Suc m" using 4 by simp
  then show ?thesis
    unfolding \<open>Suc n = 3 + Suc m\<close> 4
    by (simp only: fade_rising_from3 fade_falling_from3) simp
qed

theorem fade_converges_witness:
  "opacity ((fade ^^ 2) \<lparr>alive = True, opacity = 0\<rparr>) \<le> 1 / 2 \<and>
   opacity ((fade ^^ 3) \<lparr>alive = True, opacity = 0\<rparr>) = 1 / 2 \<and>
   opacity ((fade ^^ 3) \<lparr>alive = False, opacity = 1 / 2\<rparr>) = 0"
  using fade_converges [of 2 0] by simp

section \<open>Opacity across a generation\<close>

text \<open>
  Claim C6. The generation transition succeeds on every well-formed grid, and whenever
  it returns a grid, that grid has the shape of the input and every cell carries the
  opacity that the cell at the same coordinate had in the input.
\<close>

theorem step_keeps_opacity:
  "(wf_grid rows cols g \<longrightarrow> (\<exists>g'. step rows cols g = Some g')) \<and>
   (\<forall>g'. step rows cols g = Some g' \<longrightarrow>
      length g' = length g \<and>
      (\<forall>i<length g. length (g' ! i) = length (g ! i) \<and>
         (\<forall>j<length (g ! i). opacity (g' ! i ! j) = opacity (g ! i ! j))))"
proof (intro conjI allI impI)
  assume "wf_grid rows cols g"
  then show "\<exists>g'. step rows cols g = Some g'" by (rule step_total)
next
  fix g' assume "step rows cols g = Some g'"
  then show "length g' = length g" by (rule step_rows(1))
next
  fix g' i assume "step rows cols g = Some g'" "i < length g"
  then show "length (g' ! i) = length (g ! i)" by (rule step_rows(2))
next
  fix g' i j
  assume g': "step rows cols g = Some g'" and i: "i < length g" and j: "j < length (g ! i)"
  from step_rows(3) [OF g' i j] show "opacity (g' ! i ! j) = opacity (g ! i ! j)"
    by (rule next_cell_opacity)
qed

theorem step_keeps_opacity_witness:
  "wf_grid 2 3 small_grid \<and>
   (\<exists>g'. step 2 3 small_grid = Some g' \<and>
      map (map opacity) g' = [[1 / 2, 0, 1 / 2], [0, 0, 1 / 2]])"
proof -
  have wf: "wf_grid 2 3 small_grid" by (rule wf_small_grid)
  from step_keeps_opacity [of 2 3 small_grid] wf
  obtain g' where g': "step 2 3 small_grid = Some g'" by blast
  with step_keeps_opacity [of 2 3 small_grid]
  have len: "length g' = length small_grid"
    and rows: "\<forall>i<length small_grid. length (g' ! i) = length (small_grid ! i) \<and>
         (\<forall>j<length (small_grid ! i). opacity (g' ! i ! j) = opacity (small_grid ! i ! j))"
    by blast+
  have "map (map opacity) g' = map (map opacity) small_grid"
    using len rows by (auto intro!: nth_equalityI)
  then have "map (map opacity) g' = [[1 / 2, 0, 1 / 2], [0, 0, 1 / 2]]"
    by (simp add: small_grid_def live_def dead_def)
  with wf g' show ?thesis by (intro conjI exI)
qed

section \<open>Stopping\<close>

text \<open>
  Claim C7. The claim asks that no tick fires after the cleanup, whenever the cleanup runs.
  The cleanup cancels only the animation frame whose handle is stored in
  \<open>animationFrameId\<close>. While the 125 ms timeout of the last \<open>draw\<close> is pending there is
  no such frame: the cleanup changes nothing, the timeout then requests a frame, and
  \<open>draw\<close> runs again, changes the grid, draws and sets the next timeout. Shown on a
  canvas of 6 by 6 pixels, with the two calls of \<open>Math.random\<close> returning 0.9: the state
  after mounting, the same state after the cleanup, and the state after the cleanup, the
  timeout and the animation frame, which holds a second frame and a changed grid (the
  opacity \<open>0.5 - 0.2\<close>, which is the double \<open>0.3\<close>).
\<close>

theorem cleanup_during_delay_does_not_stop:
  "mount 6 6 (draws [9 / 10, 9 / 10]) =
     Some \<lparr>grid_var = [[\<lparr>alive = False, opacity = 1 / 2\<rparr>]], animationFrameId = None,
           timeouts = 1, frames = [], next_handle = 1,
           drawn = [[circle_at 0 0 (1 / 2)]]\<rparr> \<and>
   run 1 1 [Cleanup]
     \<lparr>grid_var = [[\<lparr>alive = False, opacity = 1 / 2\<rparr>]], animationFrameId = None,
      timeouts = 1, frames = [], next_handle = 1,
      drawn = [[circle_at 0 0 (1 / 2)]]\<rparr> =
     Some \<lparr>grid_var = [[\<lparr>alive = False, opacity = 1 / 2\<rparr>]], animationFrameId = None,
           timeouts = 1, frames = [], next_handle = 1,
           drawn = [[circle_at 0 0 (1 / 2)]]\<rparr> \<and>
   run 1 1 [Cleanup, TimeoutFires, FrameFires 1]
     \<lparr>grid_var = [[\<lparr>alive = False, opacity = 1 / 2\<rparr>]], animationFrameId = None,
      timeouts = 1, frames = [], next_handle = 1,
      drawn = [[circle_at 0 0 (1 / 2)]]\<rparr> =
     Some \<lparr>grid_var = [[\<lparr>alive = False, opacity = to_double (3 / 10)\<rparr>]],
           animationFrameId = Some 1, timeouts = 1, frames = [], next_handle = 2,
           drawn = [[circle_at 0 0 (1 / 2)], [circle_at 0 0 (to_double (3 / 10))]]\<rparr>"
proof -
  have up: "fade \<lparr>alive = True, opacity = 1 / 2\<rparr> = \<lparr>alive = True, opacity = 1 / 2\<rparr>"
    by (rule fade_rising(4))
  have down: "fade \<lparr>alive = False, opacity = 1 / 2\<rparr>
              = \<lparr>alive = False, opacity = to_double (3 / 10)\<rparr>"
    unfolding to_double_values by (rule fade_falling(1))
  have pos: "0 < to_double (3 / 10)" unfolding to_double_values by simp
  show ?thesis
    by (simp add: mount_def run_draw_def fire_def draw_def draw_cells_def draw_cell_def
        cell_at_def up down pos step_def next_cell_def countNeighbors_def js_rem_def
        alive_num_def initialize_def init_cell_def draws_def cellSize_def enumerate_eq_zip)
qed

section \<open>The drawn frame\<close>

text \<open>
  Claim C9. A call of \<open>draw\<close> on a well-formed grid returns a next grid that carries the
  updated opacity of every cell, and the frame contains the circle of cell \<open>(i, j)\<close> with
  fill opacity \<open>a\<close> exactly when \<open>a\<close> is that updated opacity and \<open>a > 0\<close>. Every circle
  of the frame is the circle of a cell of the grid. So a cell whose updated opacity
  is 0 has no circle in the frame.
\<close>

theorem draw_snapshot_visible:
  assumes "wf_grid rows cols g"
  shows "\<exists>next out. draw rows cols g = Some (next, out) \<and>
           (\<forall>i<rows. \<forall>j<cols.
              opacity (next ! i ! j) = opacity (fade (g ! i ! j)) \<and>
              (\<forall>a. circle_at i j a \<in> set out \<longleftrightarrow> a = opacity (next ! i ! j) \<and> 0 < a)) \<and>
           (\<forall>c\<in>set out. \<exists>i<rows. \<exists>j<cols. c = circle_at i j (opacity (next ! i ! j)))"
proof -
  from draw_wf [OF assms] obtain "next"
    where d: "draw rows cols g =
             Some (next, map (\<lambda>(i, j). circle_at i j (opacity (next ! i ! j)))
                           (visible_cells rows cols next))"
      and op: "\<forall>i<rows. \<forall>j<cols. opacity (next ! i ! j) = opacity (fade (g ! i ! j))"
    by blast
  let ?out = "map (\<lambda>(i, j). circle_at i j (opacity (next ! i ! j))) (visible_cells rows cols next)"
  have mem: "circle_at i j a \<in> set ?out \<longleftrightarrow> a = opacity (next ! i ! j) \<and> 0 < a"
    if "i < rows" "j < cols" for i j a
  proof
    assume "circle_at i j a \<in> set ?out"
    then show "a = opacity (next ! i ! j) \<and> 0 < a"
      by (auto simp: circle_at_inj in_visible_cells)
  next
    assume a: "a = opacity (next ! i ! j) \<and> 0 < a"
    with that have "(i, j) \<in> set (visible_cells rows cols next)"
      by (simp add: in_visible_cells)
    then have "(\<lambda>(i, j). circle_at i j (opacity (next ! i ! j))) (i, j) \<in> set ?out"
      unfolding set_map by (rule imageI)
    with a show "circle_at i j a \<in> set ?out" by simp
  qed
  have src: "\<exists>i<rows. \<exists>j<cols. c = circle_at i j (opacity (next ! i ! j))" if "c \<in> set ?out" for c
  proof -
    from that obtain i j where "(i, j) \<in> set (visible_cells rows cols next)"
      and "c = circle_at i j (opacity (next ! i ! j))" by auto
    then show ?thesis unfolding in_visible_cells by blast
  qed
  from d op mem src show ?thesis by blast
qed

theorem draw_snapshot_visible_witness:
  "wf_grid 2 3 small_grid \<and>
   (\<exists>next out. draw 2 3 small_grid = Some (next, out) \<and>
      circle_at 0 0 (1 / 2) \<in> set out \<and> (\<forall>a. circle_at 0 1 a \<notin> set out))"
proof -
  have wf: "wf_grid 2 3 small_grid" by (rule wf_small_grid)
  from draw_snapshot_visible [OF wf] obtain "next" out
    where d: "draw 2 3 small_grid = Some (next, out)"
      and vis: "\<forall>i<2. \<forall>j<3.
              opacity (next ! i ! j) = opacity (fade (small_grid ! i ! j)) \<and>
              (\<forall>a. circle_at i j a \<in> set out \<longleftrightarrow> a = opacity (next ! i ! j) \<and> 0 < a)"
    by blast
  have "opacity (fade (small_grid ! 0 ! 0)) = 1 / 2" "opacity (fade (small_grid ! 0 ! 1)) = 0"
    by (simp_all add: small_grid_def live_def dead_def fade_rising(4) fade_falling(4))
  with vis have "circle_at 0 0 (1 / 2) \<in> set out" "\<forall>a. circle_at 0 1 a \<notin> set out"
    by auto
  with wf d show ?thesis by blast
qed


text \<open>
  Claim C10. The frame lists the circles of the visible cells in row-major order: by row
  index and, within a row, by column index. The frame is a function of the grid, so
  equal grids give equal frames.
\<close>

theorem draw_snapshot_row_major:
  assumes "wf_grid rows cols g"
  shows "\<exists>next out. draw rows cols g = Some (next, out) \<and>
           out = map (\<lambda>(i, j). circle_at i j (opacity (next ! i ! j)))
                   (visible_cells rows cols next) \<and>
           sorted_wrt row_major (visible_cells rows cols next)"
  using draw_wf [OF assms] visible_cells_row_major by blast

theorem draw_snapshot_row_major_witness:
  "wf_grid 2 3 small_grid \<and>
   (\<exists>next out. draw 2 3 small_grid = Some (next, out) \<and>
      out = map (\<lambda>(i, j). circle_at i j (opacity (next ! i ! j))) (visible_cells 2 3 next) \<and>
      sorted_wrt row_major (visible_cells 2 3 next))"
proof -
  have wf: "wf_grid 2 3 small_grid" by (rule wf_small_grid)
  from wf draw_snapshot_row_major [OF wf] show ?thesis by blast
qed

end
